theory Spec2Isabelle
  imports Main
begin

section \<open>Strings\<close>

text \<open>
  A Python \<open>str\<close> is a sequence of Unicode code points, and \<open>len\<close> and slicing count
  code points. A string of the program is therefore a list of code points (natural
  numbers); \<open>str\<close> turns an ASCII literal into such a list.
\<close>

type_synonym pystr = "nat list"

definition str :: "string \<Rightarrow> pystr" where
  "str s = map of_char s"

section \<open>The feed store (database.py)\<close>

text \<open>
  The two tables of \<open>init_db\<close>. A row of \<open>rss_feeds\<close> has an integer primary key
  (AUTOINCREMENT), a unique url, a name and a nullable \<open>last_check\<close>. A row of
  \<open>sent_posts\<close> has its own key, the id of a feed, a unique \<open>post_url\<close> and the time of
  insertion. Timestamps are seconds on a clock of natural numbers. SQLite leaves the
  declared foreign key unchecked unless a connection switches the check on, which no
  connection of the program does, so inserting a row for an unknown feed id succeeds.
  AUTOINCREMENT hands out one more than the largest key ever used; the counters
  \<open>feed_seq\<close> and \<open>sent_seq\<close> hold that largest key.
\<close>

record feed =
  f_id :: int
  f_url :: pystr
  f_name :: pystr
  last_check :: "nat option"

record sent_post =
  s_id :: int
  feed_id :: int
  post_url :: pystr
  sent_at :: nat

record database =
  rss_feeds :: "feed list"
  sent_posts :: "sent_post list"
  feed_seq :: int
  sent_seq :: int

datatype error = IntegrityError

definition init_db :: database where
  "init_db = \<lparr>rss_feeds = [], sent_posts = [], feed_seq = 0, sent_seq = 0\<rparr>"

text \<open>
  \<open>INSERT OR IGNORE\<close>: a row whose url is already stored is dropped silently. SQLite
  draws the AUTOINCREMENT key before it meets the conflict and keeps the counter where
  the draw left it, so the dropped insert uses up a key all the same.
\<close>

definition add_feed :: "pystr \<Rightarrow> pystr \<Rightarrow> database \<Rightarrow> database" where
  "add_feed url name d =
     (if url \<in> set (map f_url (rss_feeds d)) then d\<lparr>feed_seq := feed_seq d + 1\<rparr>
      else d\<lparr>rss_feeds := rss_feeds d @
                 [\<lparr>f_id = feed_seq d + 1, f_url = url, f_name = name, last_check = None\<rparr>],
               feed_seq := feed_seq d + 1\<rparr>)"

definition get_all_feeds :: "database \<Rightarrow> feed list" where
  "get_all_feeds d = rss_feeds d"

text \<open>The first argument is the value of \<open>CURRENT_TIMESTAMP\<close> when the statement runs.\<close>

definition update_feed_check_time :: "nat \<Rightarrow> int \<Rightarrow> database \<Rightarrow> database" where
  "update_feed_check_time now fid d =
     d\<lparr>rss_feeds := map (\<lambda>f. if f_id f = fid then f\<lparr>last_check := Some now\<rparr> else f)
                         (rss_feeds d)\<rparr>"

definition is_post_sent :: "pystr \<Rightarrow> database \<Rightarrow> bool" where
  "is_post_sent url d = (find (\<lambda>r. post_url r = url) (sent_posts d) \<noteq> None)"

text \<open>
  A plain \<open>INSERT\<close>: the UNIQUE constraint on \<open>post_url\<close> makes it raise when the url is
  already stored, and then nothing is written.
\<close>

definition mark_post_sent :: "nat \<Rightarrow> int \<Rightarrow> pystr \<Rightarrow> database \<Rightarrow> error + database" where
  "mark_post_sent now fid url d =
     (if url \<in> set (map post_url (sent_posts d)) then Inl IntegrityError
      else Inr (d\<lparr>sent_posts := sent_posts d @
                      [\<lparr>s_id = sent_seq d + 1, feed_id = fid, post_url = url, sent_at = now\<rparr>],
                    sent_seq := sent_seq d + 1\<rparr>))"

text \<open>
  \<open>remove_feed\<close> looks the id up by url and returns \<open>False\<close> when there is none;
  otherwise both DELETE statements run in one transaction, committed once.
\<close>

definition remove_feed :: "pystr \<Rightarrow> database \<Rightarrow> bool \<times> database" where
  "remove_feed url d =
     (case find (\<lambda>f. f_url f = url) (rss_feeds d) of
        None \<Rightarrow> (False, d)
      | Some row \<Rightarrow>
          (True, d\<lparr>sent_posts := filter (\<lambda>r. feed_id r \<noteq> f_id row) (sent_posts d),
                   rss_feeds := filter (\<lambda>f. f_id f \<noteq> f_id row) (rss_feeds d)\<rparr>))"

text \<open>
  What the table constraints guarantee of every stored state: feed ids and urls are
  unique, post urls are unique, and no feed id exceeds the AUTOINCREMENT counter.
\<close>

definition wf_db :: "database \<Rightarrow> bool" where
  "wf_db d \<longleftrightarrow>
     distinct (map f_id (rss_feeds d)) \<and> distinct (map f_url (rss_feeds d)) \<and>
     distinct (map post_url (sent_posts d)) \<and> list_all (\<lambda>f. f_id f \<le> feed_seq d) (rss_feeds d)"

section \<open>The feed fetcher (rss_crawler.py)\<close>

text \<open>
  What \<open>feedparser.parse\<close> hands back, as far as \<open>fetch_feed\<close> reads it: the \<open>bozo\<close>
  flag, whether \<open>bozo_exception\<close> is a \<open>UnicodeEncodeError\<close>, and the entries. Every
  field of an entry may be absent. A tag is a dictionary of which only \<open>term\<close> is read.
\<close>

record tag =
  t_term :: "pystr option"

record entry =
  e_title :: "pystr option"
  e_link :: "pystr option"
  e_description :: "pystr option"
  e_published :: "pystr option"
  e_tags :: "tag list option"
  e_categories :: "pystr list option"

record parsed =
  bozo :: bool
  bozo_unicode :: bool
  entries :: "entry list"

datatype charset = Utf8 | Ascii

record post =
  title :: pystr
  link :: pystr
  description :: pystr
  published :: pystr
  tags :: "pystr list"

text \<open>
  The collaborators outside the repository are parameters. \<open>parse\<close> is
  \<open>feedparser.parse\<close> (\<open>None\<close> when it raises), \<open>get_text\<close> is
  \<open>BeautifulSoup(d, 'html.parser').get_text()\<close> (\<open>None\<close> when it raises), \<open>now_iso\<close> is
  \<open>datetime.now().isoformat()\<close> read off the clock, and \<open>send_message\<close> is the channel
  sink (\<open>False\<close> when \<open>bot.send_message\<close> raises). The network and the sink answer
  differently at different moments: they take the number of outside calls made so far.
\<close>

record env =
  parse :: "nat \<Rightarrow> pystr \<Rightarrow> charset \<Rightarrow> parsed option"
  get_text :: "pystr \<Rightarrow> pystr option"
  now_iso :: "nat \<Rightarrow> pystr"
  send_message :: "nat \<Rightarrow> pystr \<Rightarrow> bool"

record world =
  db :: database
  clock :: nat
  tick :: nat

text \<open>Lines 33 to 37 and 44 of \<open>fetch_feed\<close>: the tag list of one entry.\<close>

definition raw_tags :: "entry \<Rightarrow> pystr list" where
  "raw_tags e =
     (case e_tags e of
        Some ts \<Rightarrow> map (\<lambda>t. case t_term t of Some x \<Rightarrow> x | None \<Rightarrow> []) ts
      | None \<Rightarrow> (case e_categories e of Some cs \<Rightarrow> cs | None \<Rightarrow> []))"

text \<open>Lines 48 to 51: a non-empty description is replaced by its truncated plain text.\<close>

definition clean_description :: "env \<Rightarrow> pystr \<Rightarrow> pystr option" where
  "clean_description ev d =
     (if d \<noteq> [] then
        (case get_text ev d of
           None \<Rightarrow> None
         | Some t \<Rightarrow> Some (if length t > 500 then take 500 t @ str ''...'' else t))
      else Some d)"

text \<open>The body of the loop over the entries; \<open>None\<close> when it raises.\<close>

definition make_post :: "env \<Rightarrow> nat \<Rightarrow> entry \<Rightarrow> post option" where
  "make_post ev now e =
     (let p = \<lparr>title = (case e_title e of Some t \<Rightarrow> t | None \<Rightarrow> str ''No title''),
               link = (case e_link e of Some l \<Rightarrow> l | None \<Rightarrow> []),
               description = (case e_description e of Some d \<Rightarrow> d | None \<Rightarrow> []),
               published = (case e_published e of Some t \<Rightarrow> t | None \<Rightarrow> now_iso ev now),
               tags = filter (\<lambda>t. t \<noteq> []) (raw_tags e)\<rparr>
      in case clean_description ev (description p) of
           None \<Rightarrow> None
         | Some d \<Rightarrow> Some (p\<lparr>description := d\<rparr>))"

definition posts_of :: "env \<Rightarrow> nat \<Rightarrow> parsed \<Rightarrow> post list option" where
  "posts_of ev now f =
     (if bozo f \<and> \<not> bozo_unicode f then None
      else map_option (take 10) (those (map (make_post ev now) (entries f))))"

text \<open>
  \<open>fetch_feed\<close>: parse as UTF-8, once more as ASCII after an encoding error, give up on
  any other parse error; every exception ends in \<open>None\<close>.
\<close>

definition fetch_feed :: "env \<Rightarrow> pystr \<Rightarrow> world \<Rightarrow> post list option \<times> world" where
  "fetch_feed ev url w =
     (let w1 = w\<lparr>tick := tick w + 1\<rparr> in
      case parse ev (tick w) url Utf8 of
        None \<Rightarrow> (None, w1)
      | Some f1 \<Rightarrow>
          if bozo f1 \<and> bozo_unicode f1 then
            (let w2 = w1\<lparr>tick := tick w1 + 1\<rparr> in
             case parse ev (tick w1) url Ascii of
               None \<Rightarrow> (None, w2)
             | Some f2 \<Rightarrow> (posts_of ev (clock w2) f2, w2))
          else (posts_of ev (clock w1) f1, w1))"

text \<open>\<open>s.replace(c, new)\<close> for a pattern \<open>c\<close> of one character.\<close>

definition replace :: "nat \<Rightarrow> pystr \<Rightarrow> pystr \<Rightarrow> pystr" where
  "replace c new s = concat (map (\<lambda>x. if x = c then new else [x]) s)"

text \<open>
  The code points 38, 60, 62 and 34 are \<open>&\<close>, \<open><\<close>, \<open>>\<close> and the double quote, 10 is the
  line feed and 128279 the link emoji of the label.
\<close>

definition format_telegram_message :: "post \<Rightarrow> pystr \<Rightarrow> pystr" where
  "format_telegram_message p feed_name =
     (let title' = replace 62 (str ''&gt;'') (replace 60 (str ''&lt;'')
                     (replace 38 (str ''&amp;'') (title p)));
          link' = replace 34 (str ''&quot;'') (link p);
          description' = replace 62 (str ''&gt;'') (replace 60 (str ''&lt;'')
                     (replace 38 (str ''&amp;'') (description p)))
      in title' @ [10, 10] @
         str ''<a href='' @ [34] @ link' @ [34] @ str ''>'' @ [128279] @ str '' Link</a>'' @ [10, 10] @
         description' @ [10, 10] @
         str ''<i>Feed: '' @ feed_name @ str ''</i>'' @ [10])"

section \<open>The delivery engine (bot.py)\<close>

text \<open>
  What the engine does to the outside, in order: every call of the fetcher (with the
  truth value of its result), every \<open>is_post_sent\<close> with its answer, every
  \<open>bot.send_message\<close> with the post, the text and whether it returned, every
  \<open>mark_post_sent\<close> that returned or raised, every \<open>asyncio.sleep\<close>, every
  \<open>logger.error\<close> of the engine and every \<open>update_feed_check_time\<close>.
\<close>

datatype event =
    Fetched pystr bool
  | Checked_sent pystr bool
  | Send_message post pystr bool
  | Marked int pystr
  | Mark_failed int pystr
  | Slept nat
  | Logged_error
  | Updated_check int

text \<open>Python's truth value of the fetcher's result: \<open>None\<close> and the empty list are false.\<close>

fun truthy :: "post list option \<Rightarrow> bool" where
  "truthy None = False"
| "truthy (Some []) = False"
| "truthy (Some (p # ps)) = True"

text \<open>
  The body of the loop over the posts of one feed. The pause of two seconds is the last
  statement of the \<open>try\<close> block, behind the send and the insert; the handler only logs.
\<close>

definition deliver_post :: "env \<Rightarrow> feed \<Rightarrow> post \<Rightarrow> world \<Rightarrow> world \<times> event list" where
  "deliver_post ev fd p w =
     (if is_post_sent (link p) (db w) then (w, [Checked_sent (link p) True])
      else
        (let message_text = format_telegram_message p (f_name fd);
             w1 = w\<lparr>tick := tick w + 1\<rparr>
         in if \<not> send_message ev (tick w) message_text
            then (w1, [Checked_sent (link p) False, Send_message p message_text False,
                       Logged_error])
            else
              (case mark_post_sent (clock w1) (f_id fd) (link p) (db w1) of
                 Inl e \<Rightarrow> (w1, [Checked_sent (link p) False, Send_message p message_text True,
                                Mark_failed (f_id fd) (link p), Logged_error])
               | Inr d \<Rightarrow> (w1\<lparr>db := d, clock := clock w1 + 2\<rparr>,
                           [Checked_sent (link p) False, Send_message p message_text True,
                            Marked (f_id fd) (link p), Slept 2]))))"

fun deliver_posts :: "env \<Rightarrow> feed \<Rightarrow> post list \<Rightarrow> world \<Rightarrow> world \<times> event list" where
  "deliver_posts ev fd [] w = (w, [])"
| "deliver_posts ev fd (p # ps) w =
     (let (w1, es1) = deliver_post ev fd p w;
          (w2, es2) = deliver_posts ev fd ps w1
      in (w2, es1 @ es2))"

text \<open>The body of the loop over the feeds: \<open>if not posts: continue\<close>, then the posts, then \<open>update_feed_check_time\<close>.\<close>

definition check_feed :: "env \<Rightarrow> feed \<Rightarrow> world \<Rightarrow> world \<times> event list" where
  "check_feed ev fd w =
     (let (posts, w1) = fetch_feed ev (f_url fd) w in
      if \<not> truthy posts then (w1, [Fetched (f_url fd) False])
      else
        (let (w2, es) = deliver_posts ev fd (case posts of Some ps \<Rightarrow> ps | None \<Rightarrow> []) w1
         in (w2\<lparr>db := update_feed_check_time (clock w2) (f_id fd) (db w2)\<rparr>,
             Fetched (f_url fd) True # es @ [Updated_check (f_id fd)])))"

fun check_feeds :: "env \<Rightarrow> feed list \<Rightarrow> world \<Rightarrow> world \<times> event list" where
  "check_feeds ev [] w = (w, [])"
| "check_feeds ev (fd # fds) w =
     (let (w1, es1) = check_feed ev fd w;
          (w2, es2) = check_feeds ev fds w1
      in (w2, es1 @ es2))"

text \<open>
  One round of the \<open>while True\<close> loop: the feeds are read once, each is checked, and the
  engine sleeps 900 seconds. No statement of the round raises outside the inner
  \<open>try\<close> in this model of the store, so the outer handler with its sleep of 60 seconds
  is not entered.
\<close>

definition cycle :: "env \<Rightarrow> world \<Rightarrow> world \<times> event list" where
  "cycle ev w =
     (let (w1, es) = check_feeds ev (get_all_feeds (db w)) w
      in (w1\<lparr>clock := clock w1 + 900\<rparr>, es @ [Slept 900]))"

text \<open>
  \<open>check_feeds_periodically\<close> never returns; its first \<open>n\<close> rounds are what can be
  observed of it.
\<close>

fun check_feeds_periodically :: "env \<Rightarrow> nat \<Rightarrow> world \<Rightarrow> world \<times> event list" where
  "check_feeds_periodically ev 0 w = (w, [])"
| "check_feeds_periodically ev (Suc n) w =
     (let (w1, es1) = cycle ev w;
          (w2, es2) = check_feeds_periodically ev n w1
      in (w2, es1 @ es2))"

text \<open>
  The states of the store that the program can reach: from the empty tables, by the
  operations of the store in any order and by rounds of the engine.
\<close>

inductive reachable :: "database \<Rightarrow> bool" where
  r_init: "reachable init_db"
| r_add: "reachable d \<Longrightarrow> reachable (add_feed url name d)"
| r_remove: "reachable d \<Longrightarrow> reachable (snd (remove_feed url d))"
| r_update: "reachable d \<Longrightarrow> reachable (update_feed_check_time now fid d)"
| r_mark: "reachable d \<Longrightarrow> mark_post_sent now fid url d = Inr d' \<Longrightarrow> reachable d'"
| r_cycle: "reachable (db w) \<Longrightarrow> reachable (db (fst (cycle ev w)))"

text \<open>
  \<open>owners u d\<close> lists the feed ids on the rows of \<open>sent_posts\<close> for the url \<open>u\<close>.
  \<open>survives u d d'\<close> says that the store \<open>d'\<close> comes from \<open>d\<close> by operations of the
  store and rounds of the engine, in any order, among which no \<open>remove_feed\<close> removes a
  feed that a row for \<open>u\<close> belongs to.
\<close>

definition owners :: "pystr \<Rightarrow> database \<Rightarrow> int list" where
  "owners u d = map feed_id (filter (\<lambda>r. post_url r = u) (sent_posts d))"

inductive survives :: "pystr \<Rightarrow> database \<Rightarrow> database \<Rightarrow> bool" where
  s_start: "survives u d d"
| s_add: "survives u d d1 \<Longrightarrow> survives u d (add_feed url name d1)"
| s_remove: "survives u d d1 \<Longrightarrow>
     \<forall>f \<in> set (rss_feeds d1). f_url f = url \<longrightarrow> f_id f \<notin> set (owners u d1) \<Longrightarrow>
     survives u d (snd (remove_feed url d1))"
| s_update: "survives u d d1 \<Longrightarrow> survives u d (update_feed_check_time now fid d1)"
| s_mark: "survives u d d1 \<Longrightarrow> mark_post_sent now fid url d1 = Inr d2 \<Longrightarrow> survives u d d2"
| s_cycle: "survives u d (db w) \<Longrightarrow> survives u d (db (fst (cycle ev w)))"

section \<open>Reading a trace against the ledger\<close>

text \<open>
  \<open>marked es\<close> lists the urls that \<open>es\<close> inserted into \<open>sent_posts\<close>. \<open>agrees S es\<close> says
  that the trace \<open>es\<close> is what a ledger holding the urls \<open>S\<close> produces: every answer of
  \<open>is_post_sent\<close> is membership in the ledger at that moment, every insert is for a url
  the ledger does not hold and adds it, and no insert raises.
\<close>

fun marked :: "event list \<Rightarrow> pystr list" where
  "marked [] = []"
| "marked (Marked f u # es) = u # marked es"
| "marked (e # es) = marked es"

fun agrees :: "pystr set \<Rightarrow> event list \<Rightarrow> bool" where
  "agrees S [] = True"
| "agrees S (Checked_sent u b # es) = ((b \<longleftrightarrow> u \<in> S) \<and> agrees S es)"
| "agrees S (Marked f u # es) = (u \<notin> S \<and> agrees (insert u S) es)"
| "agrees S (Mark_failed f u # es) = False"
| "agrees S (e # es) = agrees S es"

text \<open>
  \<open>delivered es\<close> lists the posts whose \<open>bot.send_message\<close> returned in \<open>es\<close>, and
  \<open>pauses es\<close> the lengths of the sleeps of \<open>es\<close>, both in order.
\<close>

fun delivered :: "event list \<Rightarrow> post list" where
  "delivered [] = []"
| "delivered (Send_message p t True # es) = p # delivered es"
| "delivered (e # es) = delivered es"

fun pauses :: "event list \<Rightarrow> nat list" where
  "pauses [] = []"
| "pauses (Slept n # es) = n # pauses es"
| "pauses (e # es) = pauses es"

section \<open>What escaping means\<close>

text \<open>
  The reference for the formatter: a text is escaped for the channel's markup when each
  \<open>&\<close>, \<open><\<close> and \<open>>\<close> of it, and nothing else, is replaced by its entity.
\<close>

definition escaped :: "pystr \<Rightarrow> pystr" where
  "escaped s =
     concat (map (\<lambda>c. if c = 38 then str ''&amp;''
                     else if c = 60 then str ''&lt;''
                     else if c = 62 then str ''&gt;'' else [c]) s)"

section \<open>Sample data\<close>

definition ex_db :: database where
  "ex_db = \<lparr>rss_feeds = [\<lparr>f_id = 1, f_url = str ''a'', f_name = str ''A'', last_check = None\<rparr>,
                          \<lparr>f_id = 2, f_url = str ''b'', f_name = str ''B'', last_check = Some 5\<rparr>],
            sent_posts = [\<lparr>s_id = 1, feed_id = 1, post_url = str ''p'', sent_at = 3\<rparr>,
                          \<lparr>s_id = 2, feed_id = 2, post_url = str ''q'', sent_at = 4\<rparr>,
                          \<lparr>s_id = 3, feed_id = 1, post_url = str ''r'', sent_at = 4\<rparr>],
            feed_seq = 2, sent_seq = 3\<rparr>"

definition ex_entry :: "pystr option \<Rightarrow> pystr \<Rightarrow> entry" where
  "ex_entry l t = \<lparr>e_title = Some t, e_link = l, e_description = None,
                    e_published = Some (str ''2024''), e_tags = None, e_categories = None\<rparr>"

text \<open>A feed source that serves the entries \<open>es\<close> to every request, and a sink that
  accepts the call number \<open>t\<close> when \<open>ok t\<close>.\<close>

definition ex_env :: "entry list \<Rightarrow> (nat \<Rightarrow> bool) \<Rightarrow> env" where
  "ex_env es ok = \<lparr>parse = (\<lambda>t url cs. Some \<lparr>bozo = False, bozo_unicode = False, entries = es\<rparr>),
                   get_text = Some, now_iso = (\<lambda>t. str ''now''),
                   send_message = (\<lambda>t text. ok t)\<rparr>"

definition ex_world :: "database \<Rightarrow> world" where
  "ex_world d = \<lparr>db = d, clock = 0, tick = 0\<rparr>"

definition one_feed :: database where
  "one_feed = add_feed (str ''a'') (str ''A'') init_db"

definition linkless :: "pystr \<Rightarrow> post" where
  "linkless t = \<lparr>title = t, link = [], description = [], published = str ''2024'', tags = []\<rparr>"

definition two_linkless :: env where
  "two_linkless = ex_env [ex_entry None (str ''T1''), ex_entry None (str ''T2'')] (\<lambda>t. True)"

definition feed_a :: feed where
  "feed_a = \<lparr>f_id = 1, f_url = str ''a'', f_name = str ''A'', last_check = None\<rparr>"

definition ex_post :: "pystr \<Rightarrow> pystr \<Rightarrow> post" where
  "ex_post l t = \<lparr>title = t, link = l, description = [], published = str ''2024'', tags = []\<rparr>"

text \<open>A sink that rejects the first call made to it and accepts every later one.\<close>

definition fail_first :: env where
  "fail_first = ex_env [] (\<lambda>t. t \<noteq> 0)"

definition after_first_round :: world where
  "after_first_round = fst (cycle two_linkless (ex_world one_feed))"

definition two_linkless_feed :: parsed where
  "two_linkless_feed = \<lparr>bozo = False, bozo_unicode = False,
      entries = [ex_entry None (str ''T1''), ex_entry None (str ''T2'')]\<rparr>"

definition tagged :: "tag list option \<Rightarrow> pystr list option \<Rightarrow> entry" where
  "tagged ts cs = \<lparr>e_title = None, e_link = Some (str ''x''), e_description = None,
                    e_published = None, e_tags = ts, e_categories = cs\<rparr>"

definition described :: "pystr \<Rightarrow> entry" where
  "described d = \<lparr>e_title = None, e_link = Some (str ''x''), e_description = Some d,
                   e_published = None, e_tags = None, e_categories = None\<rparr>"

text \<open>The store after the first round, then feed \<open>a\<close> removed and a feed \<open>b\<close> added.\<close>

definition feed_swapped :: database where
  "feed_swapped = add_feed (str ''b'') (str ''B'') (snd (remove_feed (str ''a'') (db after_first_round)))"

text \<open>The store after the first round, then feeds \<open>b\<close> and \<open>c\<close> added and \<open>c\<close> removed.\<close>

definition second_feed_added :: database where
  "second_feed_added =
     snd (remove_feed (str ''c'')
       (add_feed (str ''c'') (str ''C'') (add_feed (str ''b'') (str ''B'') (db after_first_round))))"

section \<open>The store keeps its constraints\<close>

lemma is_post_sent_iff: "is_post_sent url d \<longleftrightarrow> url \<in> set (map post_url (sent_posts d))"
  by (auto simp: is_post_sent_def find_None_iff)


lemma wf_add_feed: "wf_db d \<Longrightarrow> wf_db (add_feed url name d)"
  by (fastforce simp: wf_db_def add_feed_def list_all_iff)

lemma wf_update_feed_check_time: "wf_db d \<Longrightarrow> wf_db (update_feed_check_time now fid d)"
proof -
  have ids: "f_id \<circ> (\<lambda>f. if f_id f = fid then f\<lparr>last_check := Some now\<rparr> else f) = f_id"
    and urls: "f_url \<circ> (\<lambda>f. if f_id f = fid then f\<lparr>last_check := Some now\<rparr> else f) = f_url"
    by auto
  assume "wf_db d"
  then show ?thesis
    by (auto simp: wf_db_def update_feed_check_time_def list_all_iff ids urls)
qed



lemma find_feed_by_url:
  assumes "distinct (map f_url fs)" and "row \<in> set fs" and "f_url row = url"
  shows "find (\<lambda>f. f_url f = url) fs = Some row"
  using assms
proof (induction fs)
  case Nil
  then show ?case by simp
next
  case (Cons a fs)
  then show ?case by (cases "a = row") force+
qed

lemma find_feed_none: "url \<notin> set (map f_url fs) \<Longrightarrow> find (\<lambda>f. f_url f = url) fs = None"
  by (auto simp: find_None_iff)

text \<open>
  C7. \<open>remove_feed url\<close> returns \<open>False\<close> and leaves the store as it is when no feed has
  the url. Otherwise it returns \<open>True\<close>, and in the store it leaves, reached in one step,
  the feed with that url is gone, every other feed is kept, no row of \<open>sent_posts\<close> refers
  to the id of the removed feed, and the rows of the other feeds are kept.
\<close>

theorem remove_feed_cascade:
  "wf_db d \<Longrightarrow>
   (url \<notin> set (map f_url (rss_feeds d)) \<longrightarrow> remove_feed url d = (False, d)) \<and>
   (\<forall>row \<in> set (rss_feeds d). f_url row = url \<longrightarrow>
      fst (remove_feed url d) \<and>
      url \<notin> set (map f_url (rss_feeds (snd (remove_feed url d)))) \<and>
      set (rss_feeds (snd (remove_feed url d))) = set (rss_feeds d) - {row} \<and>
      (\<forall>r \<in> set (sent_posts (snd (remove_feed url d))). feed_id r \<noteq> f_id row) \<and>
      set (sent_posts (snd (remove_feed url d))) = {r \<in> set (sent_posts d). feed_id r \<noteq> f_id row})"
proof (intro conjI impI ballI)
  assume "url \<notin> set (map f_url (rss_feeds d))"
  then show "remove_feed url d = (False, d)"
    by (simp add: remove_feed_def find_feed_none)
next
  fix row
  assume wf: "wf_db d" and row: "row \<in> set (rss_feeds d)" "f_url row = url"
  have du: "distinct (map f_url (rss_feeds d))" and di: "distinct (map f_id (rss_feeds d))"
    using wf by (simp_all add: wf_db_def)
  have found: "find (\<lambda>f. f_url f = url) (rss_feeds d) = Some row"
    using find_feed_by_url [OF du row] .
  have same_id: "f = row" if "f \<in> set (rss_feeds d)" "f_id f = f_id row" for f
    using di that row(1) by (meson distinct_map inj_onD)
  have same_url: "f = row" if "f \<in> set (rss_feeds d)" "f_url f = url" for f
    using du that row by (metis distinct_map inj_onD)
  show "fst (remove_feed url d)"
    by (simp add: remove_feed_def found)
  show "url \<notin> set (map f_url (rss_feeds (snd (remove_feed url d))))"
    using same_url by (auto simp: remove_feed_def found)
  show "set (rss_feeds (snd (remove_feed url d))) = set (rss_feeds d) - {row}"
    using same_id by (auto simp: remove_feed_def found)
  show "set (sent_posts (snd (remove_feed url d))) = {r \<in> set (sent_posts d). feed_id r \<noteq> f_id row}"
    by (auto simp: remove_feed_def found)
  fix r
  assume "r \<in> set (sent_posts (snd (remove_feed url d)))"
  then show "feed_id r \<noteq> f_id row"
    by (simp add: remove_feed_def found)
qed

lemma wf_ex_db: "wf_db ex_db"
  by (simp add: wf_db_def ex_db_def str_def)

theorem remove_feed_cascade_witness:
  "wf_db ex_db \<and> remove_feed (str ''c'') ex_db = (False, ex_db) \<and>
   fst (remove_feed (str ''a'') ex_db) \<and>
   map f_url (rss_feeds (snd (remove_feed (str ''a'') ex_db))) = [str ''b''] \<and>
   map feed_id (sent_posts (snd (remove_feed (str ''a'') ex_db))) = [2]"
proof -
  have "str ''c'' \<notin> set (map f_url (rss_feeds ex_db))"
    by (simp add: ex_db_def str_def)
  then have 1: "remove_feed (str ''c'') ex_db = (False, ex_db)"
    using remove_feed_cascade [OF wf_ex_db, of "str ''c''"] by blast
  have 2: "fst (remove_feed (str ''a'') ex_db)"
    using remove_feed_cascade [OF wf_ex_db, of "str ''a''"] by (simp add: ex_db_def)
  show ?thesis using 1 2 wf_ex_db
    by (simp add: remove_feed_def ex_db_def str_def)
qed

lemma add_feed_rows_known:
  "u \<in> set (map f_url (rss_feeds d)) \<Longrightarrow>
   rss_feeds (add_feed u n d) = rss_feeds d \<and> sent_posts (add_feed u n d) = sent_posts d \<and>
   feed_seq (add_feed u n d) = feed_seq d + 1 \<and> sent_seq (add_feed u n d) = sent_seq d"
  by (simp add: add_feed_def)

lemma add_feed_url_stored: "u \<in> set (map f_url (rss_feeds (add_feed u n d)))"
  by (simp add: add_feed_def)

lemma one_row_per_url:
  assumes "distinct (map f_url fs)" and "u \<in> set (map f_url fs)"
  shows "length (filter (\<lambda>f. f_url f = u) fs) = 1"
  using assms
proof (induction fs)
  case Nil
  then show ?case by simp
next
  case (Cons a fs)
  show ?case
  proof (cases "f_url a = u")
    case True
    with Cons.prems have "filter (\<lambda>f. f_url f = u) fs = []"
      by (auto simp: filter_empty_conv image_iff)
    with True show ?thesis by simp
  next
    case False
    with Cons show ?thesis by simp
  qed
qed

text \<open>
  C8, as the code has it. Whatever the store holds, \<open>add_feed u n1\<close> followed by
  \<open>add_feed u n2\<close> raises nothing, the second call leaves every row of both tables as
  the first call left it, and exactly one feed has the url \<open>u\<close>. When \<open>u\<close> was not
  stored before the first call, the name of that feed is \<open>n1\<close>; when it was, neither
  call touches a row, so the feed keeps the name it had.
\<close>

theorem add_feed_keeps_first_row:
  "wf_db d \<Longrightarrow>
   rss_feeds (add_feed u n2 (add_feed u n1 d)) = rss_feeds (add_feed u n1 d) \<and>
   sent_posts (add_feed u n2 (add_feed u n1 d)) = sent_posts d \<and>
   length (filter (\<lambda>f. f_url f = u) (rss_feeds (add_feed u n2 (add_feed u n1 d)))) = 1 \<and>
   (u \<notin> set (map f_url (rss_feeds d)) \<longrightarrow>
      (\<forall>f \<in> set (rss_feeds (add_feed u n2 (add_feed u n1 d))). f_url f = u \<longrightarrow> f_name f = n1)) \<and>
   (u \<in> set (map f_url (rss_feeds d)) \<longrightarrow>
      rss_feeds (add_feed u n2 (add_feed u n1 d)) = rss_feeds d)"
proof (intro conjI impI)
  have stored: "u \<in> set (map f_url (rss_feeds (add_feed u n1 d)))"
    by (rule add_feed_url_stored)
  show same: "rss_feeds (add_feed u n2 (add_feed u n1 d)) = rss_feeds (add_feed u n1 d)"
    using add_feed_rows_known [OF stored] by simp
  show "sent_posts (add_feed u n2 (add_feed u n1 d)) = sent_posts d"
    using add_feed_rows_known [OF stored, of n2] by (simp add: add_feed_def)
  assume "wf_db d"
  then have "wf_db (add_feed u n1 d)" by (rule wf_add_feed)
  then have "distinct (map f_url (rss_feeds (add_feed u n1 d)))"
    by (simp add: wf_db_def)
  from one_row_per_url [OF this stored]
  show "length (filter (\<lambda>f. f_url f = u) (rss_feeds (add_feed u n2 (add_feed u n1 d)))) = 1"
    unfolding same .
next
  assume "u \<notin> set (map f_url (rss_feeds d))"
  then show "\<forall>f \<in> set (rss_feeds (add_feed u n2 (add_feed u n1 d))). f_url f = u \<longrightarrow> f_name f = n1"
    by (auto simp: add_feed_def)
next
  assume "u \<in> set (map f_url (rss_feeds d))"
  then show "rss_feeds (add_feed u n2 (add_feed u n1 d)) = rss_feeds d"
    by (simp add: add_feed_def)
qed

text \<open>
  A store that holds the url \<open>a\<close> under the name \<open>A\<close>: after \<open>add_feed a N1\<close> and
  \<open>add_feed a N2\<close> the stored name is still \<open>A\<close>, not \<open>N1\<close>.
\<close>

theorem stored_name_counterexample:
  "wf_db ex_db \<and>
   map f_name (filter (\<lambda>f. f_url f = str ''a'')
      (rss_feeds (add_feed (str ''a'') (str ''N2'') (add_feed (str ''a'') (str ''N1'') ex_db)))) =
     [str ''A''] \<and>
   str ''A'' \<noteq> str ''N1''"
  by (simp add: wf_db_def add_feed_def ex_db_def str_def)

theorem add_feed_keeps_first_row_witness:
  "wf_db ex_db \<and> str ''c'' \<notin> set (map f_url (rss_feeds ex_db)) \<and>
   map f_name (filter (\<lambda>f. f_url f = str ''c'')
      (rss_feeds (add_feed (str ''c'') (str ''N2'') (add_feed (str ''c'') (str ''N1'') ex_db)))) = [str ''N1''] \<and>
   length (filter (\<lambda>f. f_url f = str ''c'')
      (rss_feeds (add_feed (str ''c'') (str ''N2'') (add_feed (str ''c'') (str ''N1'') ex_db)))) = 1 \<and>
   str ''a'' \<in> set (map f_url (rss_feeds ex_db)) \<and>
   rss_feeds (add_feed (str ''a'') (str ''N2'') (add_feed (str ''a'') (str ''N1'') ex_db)) = rss_feeds ex_db"
proof -
  have fresh: "str ''c'' \<notin> set (map f_url (rss_feeds ex_db))"
    and old: "str ''a'' \<in> set (map f_url (rss_feeds ex_db))"
    by (simp_all add: ex_db_def str_def)
  note c = add_feed_keeps_first_row [OF wf_ex_db, of "str ''c''" "str ''N2''" "str ''N1''"]
  note a = add_feed_keeps_first_row [OF wf_ex_db, of "str ''a''" "str ''N2''" "str ''N1''"]
  from a old have 1: "rss_feeds (add_feed (str ''a'') (str ''N2'') (add_feed (str ''a'') (str ''N1'') ex_db)) = rss_feeds ex_db"
    by blast
  from c have 2: "length (filter (\<lambda>f. f_url f = str ''c'')
      (rss_feeds (add_feed (str ''c'') (str ''N2'') (add_feed (str ''c'') (str ''N1'') ex_db)))) = 1"
    by blast
  have 3: "map f_name (filter (\<lambda>f. f_url f = str ''c'')
      (rss_feeds (add_feed (str ''c'') (str ''N2'') (add_feed (str ''c'') (str ''N1'') ex_db)))) = [str ''N1'']"
    by (simp add: add_feed_def ex_db_def str_def)
  from fresh old wf_ex_db 1 2 3 show ?thesis by blast
qed

section \<open>The engine and the ledger\<close>

lemma marked_append: "marked (es1 @ es2) = marked es1 @ marked es2"
  by (induction es1 rule: marked.induct) auto

lemma agrees_append:
  "agrees S (es1 @ es2) \<longleftrightarrow> agrees S es1 \<and> agrees (S \<union> set (marked es1)) es2"
  by (induction S es1 rule: agrees.induct) auto




lemma deliver_post_agrees:
  assumes "deliver_post ev fd p w = (w', es)"
  shows "agrees (set (map post_url (sent_posts (db w)))) es \<and>
         set (map post_url (sent_posts (db w'))) =
           set (map post_url (sent_posts (db w))) \<union> set (marked es) \<and>
         set (marked es) \<subseteq> {link p} \<and>
         rss_feeds (db w') = rss_feeds (db w) \<and> (wf_db (db w) \<longrightarrow> wf_db (db w'))"
  using assms
  by (auto simp: deliver_post_def is_post_sent_iff mark_post_sent_def wf_db_def Let_def
           split: if_splits)

lemma deliver_posts_agrees:
  assumes "deliver_posts ev fd ps w = (w', es)"
  shows "agrees (set (map post_url (sent_posts (db w)))) es \<and>
         set (map post_url (sent_posts (db w'))) =
           set (map post_url (sent_posts (db w))) \<union> set (marked es) \<and>
         set (marked es) \<subseteq> link ` set ps \<and>
         rss_feeds (db w') = rss_feeds (db w) \<and> (wf_db (db w) \<longrightarrow> wf_db (db w'))"
  using assms
proof (induction ps arbitrary: w w' es)
  case Nil
  then show ?case by simp
next
  case (Cons p ps)
  obtain w1 es1 where 1: "deliver_post ev fd p w = (w1, es1)" by fastforce
  obtain w2 es2 where 2: "deliver_posts ev fd ps w1 = (w2, es2)" by fastforce
  from Cons.prems 1 2 have eq: "w' = w2" "es = es1 @ es2" by simp_all
  note a = deliver_post_agrees [OF 1] and b = Cons.IH [OF 2]
  show ?case unfolding eq
    using a b by (auto simp: agrees_append marked_append)
qed


lemma fetch_feed_db: "db (snd (fetch_feed ev url w)) = db w"
  by (simp add: fetch_feed_def Let_def split: option.splits)

lemma check_feed_agrees:
  assumes "check_feed ev fd w = (w', es)"
  shows "agrees (set (map post_url (sent_posts (db w)))) es \<and>
         set (map post_url (sent_posts (db w'))) =
           set (map post_url (sent_posts (db w))) \<union> set (marked es) \<and>
         (wf_db (db w) \<longrightarrow> wf_db (db w'))"
proof -
  obtain posts w1 where f: "fetch_feed ev (f_url fd) w = (posts, w1)" by fastforce
  then have d1: "db w1 = db w" using fetch_feed_db [of ev "f_url fd" w] by simp
  show ?thesis
  proof (cases "truthy posts")
    case False
    with assms f d1 show ?thesis by (auto simp: check_feed_def)
  next
    case True
    obtain w2 es2 where 2: "deliver_posts ev fd (case posts of Some ps \<Rightarrow> ps | None \<Rightarrow> []) w1 = (w2, es2)"
      by fastforce
    from assms f True 2
    have eq: "w' = w2\<lparr>db := update_feed_check_time (clock w2) (f_id fd) (db w2)\<rparr>"
      "es = Fetched (f_url fd) True # es2 @ [Updated_check (f_id fd)]"
      by (simp_all add: check_feed_def)
    have sp: "sent_posts (db w') = sent_posts (db w2)"
      by (simp add: eq update_feed_check_time_def)
    have wf: "wf_db (db w2) \<Longrightarrow> wf_db (db w')"
      by (simp add: eq wf_update_feed_check_time)
    show ?thesis
      using deliver_posts_agrees [OF 2] wf
      by (simp add: sp d1 eq(2) agrees_append marked_append)
  qed
qed

lemma check_feeds_agrees:
  assumes "check_feeds ev fds w = (w', es)"
  shows "agrees (set (map post_url (sent_posts (db w)))) es \<and>
         set (map post_url (sent_posts (db w'))) =
           set (map post_url (sent_posts (db w))) \<union> set (marked es) \<and>
         (wf_db (db w) \<longrightarrow> wf_db (db w'))"
  using assms
proof (induction fds arbitrary: w w' es)
  case Nil
  then show ?case by simp
next
  case (Cons fd fds)
  obtain w1 es1 where 1: "check_feed ev fd w = (w1, es1)" by fastforce
  obtain w2 es2 where 2: "check_feeds ev fds w1 = (w2, es2)" by fastforce
  from Cons.prems 1 2 have eq: "w' = w2" "es = es1 @ es2" by simp_all
  show ?case unfolding eq
    using check_feed_agrees [OF 1] Cons.IH [OF 2] by (auto simp: agrees_append marked_append)
qed

lemma cycle_agrees:
  assumes "cycle ev w = (w', es)"
  shows "agrees (set (map post_url (sent_posts (db w)))) es \<and>
         set (map post_url (sent_posts (db w'))) =
           set (map post_url (sent_posts (db w))) \<union> set (marked es) \<and>
         (wf_db (db w) \<longrightarrow> wf_db (db w'))"
proof -
  obtain w1 es1 where 1: "check_feeds ev (get_all_feeds (db w)) w = (w1, es1)" by fastforce
  with assms have eq: "w' = w1\<lparr>clock := clock w1 + 900\<rparr>" "es = es1 @ [Slept 900]"
    by (simp_all add: cycle_def)
  show ?thesis unfolding eq
    using check_feeds_agrees [OF 1] by (simp add: agrees_append marked_append)
qed

lemma check_feeds_periodically_agrees:
  assumes "check_feeds_periodically ev n w = (w', es)"
  shows "agrees (set (map post_url (sent_posts (db w)))) es \<and>
         set (map post_url (sent_posts (db w'))) =
           set (map post_url (sent_posts (db w))) \<union> set (marked es) \<and>
         (wf_db (db w) \<longrightarrow> wf_db (db w'))"
  using assms
proof (induction n arbitrary: w w' es)
  case 0
  then show ?case by simp
next
  case (Suc n)
  obtain w1 es1 where 1: "cycle ev w = (w1, es1)" by fastforce
  obtain w2 es2 where 2: "check_feeds_periodically ev n w1 = (w2, es2)" by fastforce
  from Suc.prems 1 2 have eq: "w' = w2" "es = es1 @ es2" by simp_all
  show ?case unfolding eq
    using cycle_agrees [OF 1] Suc.IH [OF 2] by (auto simp: agrees_append marked_append)
qed




section \<open>Running the sample data\<close>

lemmas ex_defs = ex_env_def ex_entry_def ex_world_def one_feed_def add_feed_def init_db_def
  linkless_def two_linkless_def
lemmas run_defs = cycle_def get_all_feeds_def check_feed_def fetch_feed_def posts_of_def
  make_post_def clean_description_def raw_tags_def deliver_post_def is_post_sent_def
  mark_post_sent_def update_feed_check_time_def Let_def

lemma two_linkless_trace:
  "snd (cycle two_linkless (ex_world one_feed)) =
     [Fetched (str ''a'') True, Checked_sent [] False,
      Send_message (linkless (str ''T1'')) (format_telegram_message (linkless (str ''T1'')) (str ''A'')) True]
     @ Marked 1 [] #
     [Slept 2, Checked_sent [] True, Updated_check 1, Slept 900]"
  by (simp add: ex_defs run_defs)


section \<open>One post, one feed\<close>

lemma delivered_append: "delivered (es1 @ es2) = delivered es1 @ delivered es2"
  by (induction es1 rule: delivered.induct) auto

lemma pauses_append: "pauses (es1 @ es2) = pauses es1 @ pauses es2"
  by (induction es1 rule: pauses.induct) auto

lemma deliver_post_skip:
  "is_post_sent (link p) (db w) \<Longrightarrow> deliver_post ev fd p w = (w, [Checked_sent (link p) True])"
  by (simp add: deliver_post_def)

lemma deliver_post_fail:
  "\<not> is_post_sent (link p) (db w) \<Longrightarrow>
   \<not> send_message ev (tick w) (format_telegram_message p (f_name fd)) \<Longrightarrow>
   deliver_post ev fd p w =
     (w\<lparr>tick := tick w + 1\<rparr>,
      [Checked_sent (link p) False,
       Send_message p (format_telegram_message p (f_name fd)) False, Logged_error])"
  by (simp add: deliver_post_def Let_def)

lemma deliver_post_ok:
  "\<not> is_post_sent (link p) (db w) \<Longrightarrow>
   send_message ev (tick w) (format_telegram_message p (f_name fd)) \<Longrightarrow>
   \<exists>d. mark_post_sent (clock w) (f_id fd) (link p) (db w) = Inr d \<and>
     deliver_post ev fd p w =
     (w\<lparr>tick := tick w + 1, db := d, clock := clock w + 2\<rparr>,
      [Checked_sent (link p) False,
       Send_message p (format_telegram_message p (f_name fd)) True,
       Marked (f_id fd) (link p), Slept 2])"
  by (simp add: deliver_post_def Let_def is_post_sent_iff mark_post_sent_def)

lemma deliver_post_pauses:
  "pauses (snd (deliver_post ev fd p w)) = replicate (length (delivered (snd (deliver_post ev fd p w)))) 2 \<and>
   clock (fst (deliver_post ev fd p w)) = clock w + sum_list (pauses (snd (deliver_post ev fd p w)))"
  by (cases "is_post_sent (link p) (db w)";
      cases "send_message ev (tick w) (format_telegram_message p (f_name fd))")
     (auto simp: deliver_post_skip deliver_post_fail dest: deliver_post_ok [of p w ev fd])

lemma deliver_posts_pauses:
  "pauses (snd (deliver_posts ev fd ps w)) = replicate (length (delivered (snd (deliver_posts ev fd ps w)))) 2 \<and>
   clock (fst (deliver_posts ev fd ps w)) = clock w + sum_list (pauses (snd (deliver_posts ev fd ps w)))"
proof (induction ps arbitrary: w)
  case Nil
  show ?case by simp
next
  case (Cons p ps)
  obtain w1 es1 where 1: "deliver_post ev fd p w = (w1, es1)" by fastforce
  obtain w2 es2 where 2: "deliver_posts ev fd ps w1 = (w2, es2)" by fastforce
  show ?case
    using deliver_post_pauses [of ev fd p w] Cons.IH [of w1] 1 2
    by (simp add: pauses_append delivered_append replicate_add)
qed

text \<open>
  C3, as the code has it. For a post that passes the filter and whose send returns, the
  engine inserts the row and then pauses 2 seconds before the next post. For a post
  whose send raises, the error is logged and there is no pause; for a post skipped as
  already sent there is none either. Over the posts of one feed the pauses are
  therefore one of 2 seconds for each post whose send returned, and nothing else.
\<close>

theorem pause_after_delivery_only:
  "(\<not> is_post_sent (link p) (db w) \<and>
      send_message ev (tick w) (format_telegram_message p (f_name fd)) \<longrightarrow>
      snd (deliver_post ev fd p w) =
        [Checked_sent (link p) False,
         Send_message p (format_telegram_message p (f_name fd)) True,
         Marked (f_id fd) (link p), Slept 2] \<and>
      clock (fst (deliver_post ev fd p w)) = clock w + 2) \<and>
   (\<not> is_post_sent (link p) (db w) \<and>
      \<not> send_message ev (tick w) (format_telegram_message p (f_name fd)) \<longrightarrow>
      snd (deliver_post ev fd p w) =
        [Checked_sent (link p) False,
         Send_message p (format_telegram_message p (f_name fd)) False, Logged_error] \<and>
      clock (fst (deliver_post ev fd p w)) = clock w) \<and>
   (is_post_sent (link p) (db w) \<longrightarrow>
      snd (deliver_post ev fd p w) = [Checked_sent (link p) True] \<and>
      clock (fst (deliver_post ev fd p w)) = clock w) \<and>
   pauses (snd (deliver_posts ev fd ps w)) =
      replicate (length (delivered (snd (deliver_posts ev fd ps w)))) 2 \<and>
   clock (fst (deliver_posts ev fd ps w)) =
      clock w + 2 * length (delivered (snd (deliver_posts ev fd ps w)))"
proof -
  have "clock (fst (deliver_posts ev fd ps w)) =
      clock w + 2 * length (delivered (snd (deliver_posts ev fd ps w)))"
    using deliver_posts_pauses [of ev fd ps w] by (simp add: sum_list_replicate)
  then show ?thesis
    using deliver_posts_pauses [of ev fd ps w]
    by (auto simp: deliver_post_skip deliver_post_fail dest: deliver_post_ok [of p w ev fd])
qed

lemmas ex_defs2 = ex_post_def fail_first_def feed_a_def ex_db_def

text \<open>
  Two unsent posts, the sink rejecting the first and accepting the second: two delivery
  attempts and a single pause, the one behind the second post.
\<close>

theorem pause_after_failure_counterexample:
  "snd (deliver_posts fail_first feed_a [ex_post (str ''x'') (str ''P''), ex_post (str ''y'') (str ''Q'')]
          (ex_world one_feed)) =
     [Checked_sent (str ''x'') False,
      Send_message (ex_post (str ''x'') (str ''P''))
        (format_telegram_message (ex_post (str ''x'') (str ''P'')) (str ''A'')) False,
      Logged_error,
      Checked_sent (str ''y'') False,
      Send_message (ex_post (str ''y'') (str ''Q''))
        (format_telegram_message (ex_post (str ''y'') (str ''Q'')) (str ''A'')) True,
      Marked 1 (str ''y''), Slept 2] \<and>
   pauses (snd (deliver_posts fail_first feed_a
      [ex_post (str ''x'') (str ''P''), ex_post (str ''y'') (str ''Q'')] (ex_world one_feed))) = [2]"
  by (simp add: ex_defs ex_defs2 run_defs str_def)

theorem pause_after_delivery_only_witness:
  "\<not> is_post_sent (link (linkless (str ''T1''))) (db (ex_world one_feed)) \<and>
   send_message two_linkless (tick (ex_world one_feed))
     (format_telegram_message (linkless (str ''T1'')) (f_name feed_a)) \<and>
   snd (deliver_post two_linkless feed_a (linkless (str ''T1'')) (ex_world one_feed)) =
     [Checked_sent [] False,
      Send_message (linkless (str ''T1'')) (format_telegram_message (linkless (str ''T1'')) (f_name feed_a)) True,
      Marked 1 [], Slept 2] \<and>
   clock (fst (deliver_post two_linkless feed_a (linkless (str ''T1'')) (ex_world one_feed))) = 2 \<and>
   \<not> send_message fail_first (tick (ex_world one_feed))
     (format_telegram_message (linkless (str ''T1'')) (f_name feed_a)) \<and>
   snd (deliver_post fail_first feed_a (linkless (str ''T1'')) (ex_world one_feed)) =
     [Checked_sent [] False,
      Send_message (linkless (str ''T1'')) (format_telegram_message (linkless (str ''T1'')) (f_name feed_a)) False,
      Logged_error] \<and>
   clock (fst (deliver_post fail_first feed_a (linkless (str ''T1'')) (ex_world one_feed))) = 0 \<and>
   is_post_sent (link (ex_post (str ''p'') (str ''T''))) (db (ex_world ex_db)) \<and>
   snd (deliver_post two_linkless feed_a (ex_post (str ''p'') (str ''T'')) (ex_world ex_db)) =
     [Checked_sent (str ''p'') True] \<and>
   clock (fst (deliver_post two_linkless feed_a (ex_post (str ''p'') (str ''T'')) (ex_world ex_db))) = 0"
proof -
  have a: "\<not> is_post_sent (link (linkless (str ''T1''))) (db (ex_world one_feed))"
    by (simp add: ex_defs is_post_sent_def)
  have b: "send_message two_linkless (tick (ex_world one_feed))
     (format_telegram_message (linkless (str ''T1'')) (f_name feed_a))"
    by (simp add: ex_defs)
  have c: "\<not> send_message fail_first (tick (ex_world one_feed))
     (format_telegram_message (linkless (str ''T1'')) (f_name feed_a))"
    by (simp add: ex_defs ex_defs2)
  have d: "is_post_sent (link (ex_post (str ''p'') (str ''T''))) (db (ex_world ex_db))"
    by (simp add: ex_defs ex_defs2 is_post_sent_def)
  have l: "link (linkless (str ''T1'')) = []" "f_id feed_a = 1"
    "link (ex_post (str ''p'') (str ''T'')) = str ''p''"
    "clock (ex_world one_feed) = 0" "clock (ex_world ex_db) = 0"
    by (simp_all add: ex_defs ex_defs2)
  note t1 = pause_after_delivery_only [of "linkless (str ''T1'')" "ex_world one_feed" two_linkless feed_a "[]"]
  note t2 = pause_after_delivery_only [of "linkless (str ''T1'')" "ex_world one_feed" fail_first feed_a "[]"]
  note t3 = pause_after_delivery_only [of "ex_post (str ''p'') (str ''T'')" "ex_world ex_db" two_linkless feed_a "[]"]
  from t1 a b have 1: "snd (deliver_post two_linkless feed_a (linkless (str ''T1'')) (ex_world one_feed)) =
     [Checked_sent [] False,
      Send_message (linkless (str ''T1'')) (format_telegram_message (linkless (str ''T1'')) (f_name feed_a)) True,
      Marked 1 [], Slept 2] \<and>
   clock (fst (deliver_post two_linkless feed_a (linkless (str ''T1'')) (ex_world one_feed))) = 2"
    unfolding l by simp
  from t2 a c have 2: "snd (deliver_post fail_first feed_a (linkless (str ''T1'')) (ex_world one_feed)) =
     [Checked_sent [] False,
      Send_message (linkless (str ''T1'')) (format_telegram_message (linkless (str ''T1'')) (f_name feed_a)) False,
      Logged_error] \<and>
   clock (fst (deliver_post fail_first feed_a (linkless (str ''T1'')) (ex_world one_feed))) = 0"
    unfolding l by simp
  from t3 d have 3: "snd (deliver_post two_linkless feed_a (ex_post (str ''p'') (str ''T'')) (ex_world ex_db)) =
     [Checked_sent (str ''p'') True] \<and>
   clock (fst (deliver_post two_linkless feed_a (ex_post (str ''p'') (str ''T'')) (ex_world ex_db))) = 0"
    unfolding l by simp
  from a b c d 1 2 3 show ?thesis by blast
qed

section \<open>When the check time is written\<close>

lemma deliver_posts_feeds: "rss_feeds (db (fst (deliver_posts ev fd ps w))) = rss_feeds (db w)"
  using deliver_posts_agrees [of ev fd ps w "fst (deliver_posts ev fd ps w)" "snd (deliver_posts ev fd ps w)"]
  by simp

lemma deliver_post_no_update: "Updated_check i \<notin> set (snd (deliver_post ev fd p w))"
  by (auto simp: deliver_post_def Let_def split: sum.splits)

lemma deliver_posts_no_update: "Updated_check i \<notin> set (snd (deliver_posts ev fd ps w))"
proof (induction ps arbitrary: w)
  case Nil
  show ?case by simp
next
  case (Cons p ps)
  obtain w1 es1 where 1: "deliver_post ev fd p w = (w1, es1)" by fastforce
  obtain w2 es2 where 2: "deliver_posts ev fd ps w1 = (w2, es2)" by fastforce
  show ?case
    using deliver_post_no_update [of i ev fd p w] Cons.IH [of w1] 1 2 by simp
qed

text \<open>
  What one pass over a feed does to \<open>last_check\<close>: it is set, once, to the time at the
  end of the pass when the fetcher's result is true in Python's sense (a non-empty
  list), and the store is untouched when the result is \<open>None\<close> or the empty list.
\<close>

lemma check_feed_last_check:
  "(truthy (fst (fetch_feed ev (f_url fd) w)) \<longrightarrow>
      (\<forall>f \<in> set (rss_feeds (db (fst (check_feed ev fd w)))).
          f_id f = f_id fd \<longrightarrow> last_check f = Some (clock (fst (check_feed ev fd w)))) \<and>
      count_list (snd (check_feed ev fd w)) (Updated_check (f_id fd)) = 1) \<and>
   (\<not> truthy (fst (fetch_feed ev (f_url fd) w)) \<longrightarrow>
      db (fst (check_feed ev fd w)) = db w \<and>
      snd (check_feed ev fd w) = [Fetched (f_url fd) False])"
proof -
  obtain posts w1 where f: "fetch_feed ev (f_url fd) w = (posts, w1)" by fastforce
  then have d1: "db w1 = db w" using fetch_feed_db [of ev "f_url fd" w] by simp
  obtain w2 es2 where 2: "deliver_posts ev fd (case posts of Some ps \<Rightarrow> ps | None \<Rightarrow> []) w1 = (w2, es2)"
    by fastforce
  have nu: "count_list es2 (Updated_check (f_id fd)) = 0"
    using deliver_posts_no_update [of "f_id fd" ev fd "case posts of Some ps \<Rightarrow> ps | None \<Rightarrow> []" w1] 2
    by (simp add: count_list_0_iff)
  show ?thesis
    using f d1 2 nu by (auto simp: check_feed_def update_feed_check_time_def)
qed

text \<open>
  C2 at a feed without entries. The fetch succeeds with the empty list, and the round
  treats it like a failed fetch: \<open>update_feed_check_time\<close> is not called and
  \<open>last_check\<close> keeps its old value.
\<close>

theorem empty_feed_not_checked:
  "fetch_feed (ex_env [] (\<lambda>t. True)) (f_url feed_a) (ex_world one_feed) =
     (Some [], \<lparr>db = one_feed, clock = 0, tick = 1\<rparr>) \<and>
   get_all_feeds one_feed = [feed_a] \<and>
   check_feed (ex_env [] (\<lambda>t. True)) feed_a (ex_world one_feed) =
     (\<lparr>db = one_feed, clock = 0, tick = 1\<rparr>, [Fetched (str ''a'') False]) \<and>
   cycle (ex_env [] (\<lambda>t. True)) (ex_world one_feed) =
     (\<lparr>db = one_feed, clock = 900, tick = 1\<rparr>, [Fetched (str ''a'') False, Slept 900]) \<and>
   map last_check (rss_feeds one_feed) = [None]"
  by (simp add: ex_defs ex_defs2 run_defs str_def)

section \<open>A failed send inside a feed\<close>


lemma deliver_posts_Cons:
  "deliver_posts ev fd (p # ps) w =
     (fst (deliver_posts ev fd ps (fst (deliver_post ev fd p w))),
      snd (deliver_post ev fd p w) @ snd (deliver_posts ev fd ps (fst (deliver_post ev fd p w))))"
  by (simp add: split_beta)






section \<open>A link in the ledger is never sent again\<close>

lemma deliver_post_known:
  assumes "is_post_sent u (db w)"
  shows "is_post_sent u (db (fst (deliver_post ev fd p w))) \<and>
         (\<forall>q t b. Send_message q t b \<in> set (snd (deliver_post ev fd p w)) \<longrightarrow> link q \<noteq> u)"
proof (cases "is_post_sent (link p) (db w)")
  case True
  with assms show ?thesis by (simp add: deliver_post_skip)
next
  case False
  with assms have ne: "link p \<noteq> u" by auto
  show ?thesis
  proof (cases "send_message ev (tick w) (format_telegram_message p (f_name fd))")
    case True
    from deliver_post_ok [OF False True] obtain d where
      d: "mark_post_sent (clock w) (f_id fd) (link p) (db w) = Inr d"
      and r: "deliver_post ev fd p w =
         (w\<lparr>tick := tick w + 1, db := d, clock := clock w + 2\<rparr>,
          [Checked_sent (link p) False,
           Send_message p (format_telegram_message p (f_name fd)) True,
           Marked (f_id fd) (link p), Slept 2])"
      by blast
    from d assms have "is_post_sent u d"
      by (auto simp: mark_post_sent_def is_post_sent_iff split: if_splits)
    with ne show ?thesis by (simp add: r)
  next
    case nok: False
    from deliver_post_fail [OF False nok] assms ne show ?thesis by simp
  qed
qed

lemma deliver_posts_known:
  "is_post_sent u (db w) \<Longrightarrow>
   is_post_sent u (db (fst (deliver_posts ev fd ps w))) \<and>
   (\<forall>q t b. Send_message q t b \<in> set (snd (deliver_posts ev fd ps w)) \<longrightarrow> link q \<noteq> u)"
proof (induction ps arbitrary: w)
  case Nil
  then show ?case by simp
next
  case (Cons p ps)
  note a = deliver_post_known [OF Cons.prems, of ev fd p]
  note b = Cons.IH [of "fst (deliver_post ev fd p w)"]
  from a b show ?case
    unfolding deliver_posts_Cons by (simp del: deliver_posts.simps) blast
qed

lemma check_feed_known:
  assumes "is_post_sent u (db w)"
  shows "is_post_sent u (db (fst (check_feed ev fd w))) \<and>
         (\<forall>q t b. Send_message q t b \<in> set (snd (check_feed ev fd w)) \<longrightarrow> link q \<noteq> u)"
proof -
  obtain posts w1 where f: "fetch_feed ev (f_url fd) w = (posts, w1)" by fastforce
  then have d1: "db w1 = db w" using fetch_feed_db [of ev "f_url fd" w] by simp
  with assms have k: "is_post_sent u (db w1)" by simp
  note a = deliver_posts_known [OF k, of ev fd "case posts of Some ps \<Rightarrow> ps | None \<Rightarrow> []"]
  show ?thesis
    using a assms f d1
    by (auto simp: check_feed_def split_beta update_feed_check_time_def is_post_sent_def)
qed

lemma check_feeds_known:
  "is_post_sent u (db w) \<Longrightarrow>
   is_post_sent u (db (fst (check_feeds ev fds w))) \<and>
   (\<forall>q t b. Send_message q t b \<in> set (snd (check_feeds ev fds w)) \<longrightarrow> link q \<noteq> u)"
proof (induction fds arbitrary: w)
  case Nil
  then show ?case by simp
next
  case (Cons fd fds)
  note a = check_feed_known [OF Cons.prems, of ev fd]
  note b = Cons.IH [of "fst (check_feed ev fd w)"]
  have c: "check_feeds ev (fd # fds) w =
      (fst (check_feeds ev fds (fst (check_feed ev fd w))),
       snd (check_feed ev fd w) @ snd (check_feeds ev fds (fst (check_feed ev fd w))))"
    by (simp add: split_beta)
  from a b show ?case
    unfolding c by (simp del: check_feeds.simps) blast
qed

lemma cycle_known:
  assumes "is_post_sent u (db w)"
  shows "is_post_sent u (db (fst (cycle ev w))) \<and>
         (\<forall>q t b. Send_message q t b \<in> set (snd (cycle ev w)) \<longrightarrow> link q \<noteq> u)"
  using check_feeds_known [OF assms, of ev "get_all_feeds (db w)"]
  by (auto simp: cycle_def split_beta)

lemma check_feeds_periodically_known:
  "is_post_sent u (db w) \<Longrightarrow>
   is_post_sent u (db (fst (check_feeds_periodically ev n w))) \<and>
   (\<forall>q t b. Send_message q t b \<in> set (snd (check_feeds_periodically ev n w)) \<longrightarrow> link q \<noteq> u)"
proof (induction n arbitrary: w)
  case 0
  then show ?case by simp
next
  case (Suc n)
  note a = cycle_known [OF Suc.prems, of ev]
  note b = Suc.IH [of "fst (cycle ev w)"]
  have c: "check_feeds_periodically ev (Suc n) w =
      (fst (check_feeds_periodically ev n (fst (cycle ev w))),
       snd (cycle ev w) @ snd (check_feeds_periodically ev n (fst (cycle ev w))))"
    by (simp add: split_beta)
  from a b show ?case
    unfolding c by (simp del: check_feeds_periodically.simps) blast
qed

lemma those_map_nth:
  "those (map f xs) = Some ys \<Longrightarrow>
     length ys = length xs \<and> (\<forall>i < length xs. f (xs ! i) = Some (ys ! i))"
proof (induction xs arbitrary: ys)
  case Nil
  then show ?case by simp
next
  case (Cons x xs)
  then show ?case
    by (auto split: option.splits simp: nth_Cons split: nat.splits)
qed

lemma make_post_link:
  "make_post ev now e = Some p \<Longrightarrow> link p = (case e_link e of Some l \<Rightarrow> l | None \<Rightarrow> [])"
  by (auto simp: make_post_def Let_def split: option.splits)

lemma posts_of_nth:
  assumes "posts_of ev now f = Some ps" and "i < length ps"
  shows "i < length (entries f) \<and> make_post ev now (entries f ! i) = Some (ps ! i)"
proof -
  from assms(1) obtain ys where ys: "those (map (make_post ev now) (entries f)) = Some ys"
    and ps: "ps = take 10 ys"
    by (auto simp: posts_of_def split: if_splits)
  from those_map_nth [OF ys] assms(2) ps show ?thesis by simp
qed

lemma remove_feed_keeps:
  assumes "is_post_sent u d"
    and "\<forall>f \<in> set (rss_feeds d). f_url f = url \<longrightarrow> f_id f \<notin> set (owners u d)"
  shows "is_post_sent u (snd (remove_feed url d))"
proof (cases "find (\<lambda>f. f_url f = url) (rss_feeds d)")
  case None
  with assms(1) show ?thesis by (simp add: remove_feed_def)
next
  case (Some row)
  then have "row \<in> set (rss_feeds d)" and "f_url row = url"
    by (auto simp: find_Some_iff)
  with assms(2) have no: "f_id row \<notin> set (owners u d)" by blast
  from assms(1) obtain r where r: "r \<in> set (sent_posts d)" "post_url r = u"
    by (auto simp: is_post_sent_iff)
  then have "feed_id r \<in> set (owners u d)"
    by (force simp: owners_def)
  with no have "feed_id r \<noteq> f_id row" by metis
  with r have "r \<in> set (filter (\<lambda>r. feed_id r \<noteq> f_id row) (sent_posts d))"
    by simp
  then have "post_url r \<in> set (map post_url (filter (\<lambda>r. feed_id r \<noteq> f_id row) (sent_posts d)))"
    by (simp only: set_map) (rule imageI)
  with r(2) show ?thesis
    unfolding is_post_sent_iff by (simp add: remove_feed_def Some)
qed

lemma survives_known: "survives u d d' \<Longrightarrow> is_post_sent u d \<Longrightarrow> is_post_sent u d'"
proof (induction rule: survives.induct)
  case (s_start u d)
  then show ?case by simp
next
  case (s_add u d d1 url name)
  then show ?case by (simp add: is_post_sent_def add_feed_def)
next
  case (s_remove u d d1 url)
  then show ?case by (simp add: remove_feed_keeps)
next
  case (s_update u d d1 now fid)
  then show ?case by (simp add: is_post_sent_def update_feed_check_time_def)
next
  case (s_mark u d d1 now fid url d2)
  then show ?case
    by (auto simp: is_post_sent_iff mark_post_sent_def split: if_splits)
next
  case (s_cycle u d w ev)
  then show ?case by (simp add: cycle_known)
qed

text \<open>
  C9, as the code has it. Every post that the fetcher makes of an entry without a link
  has the empty string as its link. Once the empty string is in the ledger, it stays
  there through every operation of the store and every round of the engine, in any
  order, as long as no \<open>remove_feed\<close> removes the feed its row belongs to; and then
  in no round is a send attempted for a post whose link is empty, whatever feed it comes
  from.
\<close>

theorem linkless_posts_collide:
  "(\<forall>ps i. posts_of ev now f = Some ps \<and> i < length ps \<longrightarrow>
      i < length (entries f) \<and>
      make_post ev now (entries f ! i) = Some (ps ! i) \<and>
      (e_link (entries f ! i) = None \<longrightarrow> link (ps ! i) = [])) \<and>
   (is_post_sent [] d \<and> survives [] d (db w) \<longrightarrow>
      is_post_sent [] (db w) \<and>
      is_post_sent [] (db (fst (check_feeds_periodically ev n w))) \<and>
      (\<forall>q t b. Send_message q t b \<in> set (snd (check_feeds_periodically ev n w)) \<longrightarrow> link q \<noteq> []))"
proof (intro conjI allI impI)
  fix ps i
  assume h: "posts_of ev now f = Some ps \<and> i < length ps"
  then have p: "i < length (entries f) \<and> make_post ev now (entries f ! i) = Some (ps ! i)"
    using posts_of_nth [of ev now f ps i] by simp
  then show "i < length (entries f)" and "make_post ev now (entries f ! i) = Some (ps ! i)"
    by simp_all
  assume "e_link (entries f ! i) = None"
  with p make_post_link [of ev now "entries f ! i" "ps ! i"] show "link (ps ! i) = []"
    by simp
next
  assume "is_post_sent [] d \<and> survives [] d (db w)"
  then show known: "is_post_sent [] (db w)"
    using survives_known [of "[]" d "db w"] by simp
  from check_feeds_periodically_known [OF known, of ev n]
  show "is_post_sent [] (db (fst (check_feeds_periodically ev n w)))"
    and "\<And>q t b. Send_message q t b \<in> set (snd (check_feeds_periodically ev n w)) \<Longrightarrow> link q \<noteq> []"
    by blast+
qed

lemma after_first_round_eq:
  "after_first_round =
     \<lparr>db = \<lparr>rss_feeds = [\<lparr>f_id = 1, f_url = str ''a'', f_name = str ''A'', last_check = Some 2\<rparr>],
            sent_posts = [\<lparr>s_id = 1, feed_id = 1, post_url = [], sent_at = 0\<rparr>],
            feed_seq = 1, sent_seq = 1\<rparr>,
      clock = 902, tick = 2\<rparr>"
  by (simp add: after_first_round_def ex_defs run_defs)

lemma reachable_after_first_round: "reachable (db after_first_round)"
  unfolding after_first_round_def one_feed_def by (intro r_cycle) (simp add: ex_world_def r_add r_init)

lemma feed_swapped_eq:
  "feed_swapped =
     \<lparr>rss_feeds = [\<lparr>f_id = 2, f_url = str ''b'', f_name = str ''B'', last_check = None\<rparr>],
      sent_posts = [], feed_seq = 2, sent_seq = 1\<rparr>"
  unfolding feed_swapped_def after_first_round_eq
  by (simp add: remove_feed_def add_feed_def str_def)

text \<open>
  The first round delivers a post without a link for feed \<open>a\<close> and inserts the row for
  the empty string. Feed \<open>a\<close> is removed, which deletes the row, and a feed \<open>b\<close> is
  added: the next round sends a post without a link again.
\<close>

theorem removed_owner_counterexample:
  "Marked 1 [] \<in> set (snd (cycle two_linkless (ex_world one_feed))) \<and>
   is_post_sent [] (db after_first_round) \<and>
   reachable feed_swapped \<and>
   \<not> is_post_sent [] feed_swapped \<and>
   snd (cycle two_linkless \<lparr>db = feed_swapped, clock = 902, tick = 2\<rparr>) =
     [Fetched (str ''b'') True, Checked_sent [] False,
      Send_message (linkless (str ''T1'')) (format_telegram_message (linkless (str ''T1'')) (str ''B'')) True,
      Marked 2 [], Slept 2, Checked_sent [] True, Updated_check 2, Slept 900]"
proof -
  have 1: "Marked 1 [] \<in> set (snd (cycle two_linkless (ex_world one_feed)))"
    by (simp add: two_linkless_trace)
  have 2: "is_post_sent [] (db after_first_round)"
    unfolding after_first_round_eq by (simp add: is_post_sent_def)
  have 3: "reachable feed_swapped"
    unfolding feed_swapped_def by (intro r_add r_remove reachable_after_first_round)
  have 4: "\<not> is_post_sent [] feed_swapped"
    unfolding feed_swapped_eq by (simp add: is_post_sent_def)
  have 5: "snd (cycle two_linkless \<lparr>db = feed_swapped, clock = 902, tick = 2\<rparr>) =
     [Fetched (str ''b'') True, Checked_sent [] False,
      Send_message (linkless (str ''T1'')) (format_telegram_message (linkless (str ''T1'')) (str ''B'')) True,
      Marked 2 [], Slept 2, Checked_sent [] True, Updated_check 2, Slept 900]"
    unfolding feed_swapped_eq by (simp add: ex_defs run_defs str_def)
  from 1 2 3 4 5 show ?thesis by blast
qed

lemma second_feed_added_eq:
  "second_feed_added =
     \<lparr>rss_feeds = [\<lparr>f_id = 1, f_url = str ''a'', f_name = str ''A'', last_check = Some 2\<rparr>,
                   \<lparr>f_id = 2, f_url = str ''b'', f_name = str ''B'', last_check = None\<rparr>],
      sent_posts = [\<lparr>s_id = 1, feed_id = 1, post_url = [], sent_at = 0\<rparr>],
      feed_seq = 3, sent_seq = 1\<rparr>"
  unfolding second_feed_added_def after_first_round_eq
  by (simp add: remove_feed_def add_feed_def str_def)

lemma survives_second_feed_added: "survives [] (db after_first_round) second_feed_added"
  unfolding second_feed_added_def
proof (intro s_remove s_add s_start)
  show "\<forall>f\<in>set (rss_feeds (add_feed (str ''c'') (str ''C'') (add_feed (str ''b'') (str ''B'') (db after_first_round)))).
       f_url f = str ''c'' \<longrightarrow>
       f_id f \<notin> set (owners [] (add_feed (str ''c'') (str ''C'') (add_feed (str ''b'') (str ''B'') (db after_first_round))))"
    unfolding after_first_round_eq by (simp add: add_feed_def owners_def str_def)
qed

theorem linkless_posts_collide_witness:
  "posts_of two_linkless 0 two_linkless_feed = Some [linkless (str ''T1''), linkless (str ''T2'')] \<and>
   e_link (entries two_linkless_feed ! 1) = None \<and>
   link ([linkless (str ''T1''), linkless (str ''T2'')] ! 1) = [] \<and>
   is_post_sent [] (db after_first_round) \<and>
   survives [] (db after_first_round) (db \<lparr>db = second_feed_added, clock = 902, tick = 2\<rparr>) \<and>
   is_post_sent [] (db (fst (check_feeds_periodically two_linkless 1
      \<lparr>db = second_feed_added, clock = 902, tick = 2\<rparr>))) \<and>
   snd (check_feeds_periodically two_linkless 1 \<lparr>db = second_feed_added, clock = 902, tick = 2\<rparr>) =
     [Fetched (str ''a'') True, Checked_sent [] True, Checked_sent [] True, Updated_check 1,
      Fetched (str ''b'') True, Checked_sent [] True, Checked_sent [] True, Updated_check 2,
      Slept 900] \<and>
   Send_message (linkless (str ''T2'')) (format_telegram_message (linkless (str ''T2'')) (str ''B'')) True
     \<notin> set (snd (check_feeds_periodically two_linkless 1
          \<lparr>db = second_feed_added, clock = 902, tick = 2\<rparr>))"
proof -
  let ?w = "\<lparr>db = second_feed_added, clock = 902, tick = 2\<rparr>"
  have p: "posts_of two_linkless 0 two_linkless_feed = Some [linkless (str ''T1''), linkless (str ''T2'')]"
    by (simp add: two_linkless_feed_def ex_defs posts_of_def make_post_def clean_description_def
        raw_tags_def Let_def)
  have e: "e_link (entries two_linkless_feed ! 1) = None"
    by (simp add: two_linkless_feed_def ex_entry_def)
  have s: "is_post_sent [] (db after_first_round)"
    unfolding after_first_round_eq by (simp add: is_post_sent_def)
  have v: "survives [] (db after_first_round) (db ?w)"
    using survives_second_feed_added by simp
  note t = linkless_posts_collide [of two_linkless 0 two_linkless_feed "db after_first_round" ?w 1]
  from t p e have 1: "link ([linkless (str ''T1''), linkless (str ''T2'')] ! 1) = []"
    by force
  from t s v have 2: "is_post_sent [] (db (fst (check_feeds_periodically two_linkless 1 ?w)))"
    by blast
  have l: "link (linkless (str ''T2'')) = []" by (simp add: linkless_def)
  from t s v l have 3: "Send_message (linkless (str ''T2'')) (format_telegram_message (linkless (str ''T2'')) (str ''B'')) True
     \<notin> set (snd (check_feeds_periodically two_linkless 1 ?w))"
    by blast
  have 4: "snd (check_feeds_periodically two_linkless 1 ?w) =
     [Fetched (str ''a'') True, Checked_sent [] True, Checked_sent [] True, Updated_check 1,
      Fetched (str ''b'') True, Checked_sent [] True, Checked_sent [] True, Updated_check 2,
      Slept 900]"
    unfolding second_feed_added_eq by (simp add: ex_defs run_defs str_def)
  from p e s v 1 2 3 4 show ?thesis by blast
qed

section \<open>The posts the fetcher makes\<close>

lemma make_post_tags:
  "make_post ev now e = Some p \<Longrightarrow> tags p = filter (\<lambda>t. t \<noteq> []) (raw_tags e)"
  by (auto simp: make_post_def Let_def split: option.splits)

text \<open>
  C5, as the code has it. The tags of a post are the terms of the entry's tag list when
  the entry has one (a tag without a term counts as the empty string), otherwise its
  categories when it has those, otherwise nothing; empty strings are dropped, and what
  remains keeps its order and its repetitions.
\<close>

theorem tags_of_entry:
  "make_post ev now e = Some p \<Longrightarrow>
   (\<forall>ts. e_tags e = Some ts \<longrightarrow>
      tags p = filter (\<lambda>t. t \<noteq> []) (map (\<lambda>t. case t_term t of Some x \<Rightarrow> x | None \<Rightarrow> []) ts)) \<and>
   (\<forall>cs. e_tags e = None \<and> e_categories e = Some cs \<longrightarrow> tags p = filter (\<lambda>t. t \<noteq> []) cs) \<and>
   (e_tags e = None \<and> e_categories e = None \<longrightarrow> tags p = []) \<and>
   [] \<notin> set (tags p)"
  by (auto simp: make_post_tags raw_tags_def)

text \<open>An entry that carries the tag \<open>a\<close> twice yields a post that carries it twice.\<close>

theorem duplicate_tags_counterexample:
  "make_post two_linkless 0
     (tagged (Some [\<lparr>t_term = Some (str ''a'')\<rparr>, \<lparr>t_term = Some (str ''a'')\<rparr>]) None) =
   Some \<lparr>title = str ''No title'', link = str ''x'', description = [], published = str ''now'',
         tags = [str ''a'', str ''a'']\<rparr> \<and>
   \<not> distinct [str ''a'', str ''a'']"
  by (simp add: make_post_def clean_description_def raw_tags_def tagged_def ex_defs Let_def str_def)

theorem tags_of_entry_witness:
  "make_post two_linkless 0
     (tagged (Some [\<lparr>t_term = Some (str ''a'')\<rparr>, \<lparr>t_term = None\<rparr>, \<lparr>t_term = Some []\<rparr>,
                    \<lparr>t_term = Some (str ''a'')\<rparr>]) (Some [str ''c''])) =
   Some \<lparr>title = str ''No title'', link = str ''x'', description = [], published = str ''now'',
         tags = [str ''a'', str ''a'']\<rparr> \<and>
   make_post two_linkless 0 (tagged None (Some [str ''c'', [], str ''d''])) =
   Some \<lparr>title = str ''No title'', link = str ''x'', description = [], published = str ''now'',
         tags = [str ''c'', str ''d'']\<rparr> \<and>
   make_post two_linkless 0 (tagged None None) =
   Some \<lparr>title = str ''No title'', link = str ''x'', description = [], published = str ''now'',
         tags = []\<rparr>"
proof -
  let ?e1 = "tagged (Some [\<lparr>t_term = Some (str ''a'')\<rparr>, \<lparr>t_term = None\<rparr>, \<lparr>t_term = Some []\<rparr>,
                    \<lparr>t_term = Some (str ''a'')\<rparr>]) (Some [str ''c''])"
  let ?e2 = "tagged None (Some [str ''c'', [], str ''d''])"
  let ?e3 = "tagged None None"
  have ex: "\<exists>p. make_post two_linkless 0 e = Some p \<and> title p = str ''No title'' \<and>
      link p = str ''x'' \<and> description p = [] \<and> published p = str ''now''"
    if "e = tagged ts cs" for e ts cs
    by (simp add: that make_post_def clean_description_def tagged_def ex_defs Let_def)
  have r: "make_post two_linkless 0 e =
      Some \<lparr>title = str ''No title'', link = str ''x'', description = [], published = str ''now'',
         tags = tg\<rparr>"
    if "e = tagged ts cs" and "\<And>p. make_post two_linkless 0 e = Some p \<Longrightarrow> tags p = tg" for e ts cs tg
  proof -
    from ex [OF that(1)] obtain p where p: "make_post two_linkless 0 e = Some p"
      "title p = str ''No title''" "link p = str ''x''" "description p = []" "published p = str ''now''"
      by blast
    from that(2) [OF p(1)] p show ?thesis by simp
  qed
  have 1: "tags p = [str ''a'', str ''a'']" if "make_post two_linkless 0 ?e1 = Some p" for p
    using tags_of_entry [OF that] by (simp add: tagged_def str_def)
  have 2: "tags p = [str ''c'', str ''d'']" if "make_post two_linkless 0 ?e2 = Some p" for p
    using tags_of_entry [OF that] by (simp add: tagged_def str_def)
  have 3: "tags p = []" if "make_post two_linkless 0 ?e3 = Some p" for p
    using tags_of_entry [OF that] by (simp add: tagged_def)
  from r [OF refl 1] r [OF refl 2] r [OF refl 3] show ?thesis by blast
qed

lemma make_post_description:
  "make_post ev now e =
     map_option
       (\<lambda>d. \<lparr>title = (case e_title e of Some t \<Rightarrow> t | None \<Rightarrow> str ''No title''),
              link = (case e_link e of Some l \<Rightarrow> l | None \<Rightarrow> []),
              description = d,
              published = (case e_published e of Some t \<Rightarrow> t | None \<Rightarrow> now_iso ev now),
              tags = filter (\<lambda>t. t \<noteq> []) (raw_tags e)\<rparr>)
       (clean_description ev (case e_description e of Some d \<Rightarrow> d | None \<Rightarrow> []))"
  by (simp add: make_post_def Let_def split: option.splits)

text \<open>
  C6. For an entry with a non-empty description whose plain text is \<open>t\<close>, the post's
  description is the first 500 characters of \<open>t\<close> followed by three dots when \<open>t\<close> has
  more than 500 characters, and \<open>t\<close> itself when it has at most 500. An absent or empty
  description stays empty. When stripping the markup raises, no post is made.
\<close>

theorem description_truncated:
  "(\<forall>d t. e_description e = Some d \<and> d \<noteq> [] \<and> get_text ev d = Some t \<longrightarrow>
      (\<exists>p. make_post ev now e = Some p \<and>
           (500 < length t \<longrightarrow> description p = take 500 t @ str ''...'') \<and>
           (length t \<le> 500 \<longrightarrow> description p = t))) \<and>
   (e_description e = None \<or> e_description e = Some [] \<longrightarrow>
      (\<exists>p. make_post ev now e = Some p \<and> description p = [])) \<and>
   (\<forall>d. e_description e = Some d \<and> d \<noteq> [] \<and> get_text ev d = None \<longrightarrow>
      make_post ev now e = None)"
proof (intro conjI allI impI)
  fix d t
  assume "e_description e = Some d \<and> d \<noteq> [] \<and> get_text ev d = Some t"
  then show "\<exists>p. make_post ev now e = Some p \<and>
           (500 < length t \<longrightarrow> description p = take 500 t @ str ''...'') \<and>
           (length t \<le> 500 \<longrightarrow> description p = t)"
    by (simp add: make_post_description clean_description_def)
next
  assume "e_description e = None \<or> e_description e = Some []"
  then show "\<exists>p. make_post ev now e = Some p \<and> description p = []"
    by (auto simp: make_post_description clean_description_def)
next
  fix d
  assume "e_description e = Some d \<and> d \<noteq> [] \<and> get_text ev d = None"
  then show "make_post ev now e = None"
    by (simp add: make_post_description clean_description_def)
qed

theorem description_truncated_witness:
  "e_description (described (replicate 600 120)) = Some (replicate 600 120) \<and>
   replicate 600 (120::nat) \<noteq> [] \<and>
   get_text two_linkless (replicate 600 120) = Some (replicate 600 120) \<and>
   map_option description (make_post two_linkless 0 (described (replicate 600 120))) =
     Some (replicate 500 120 @ str ''...'') \<and>
   map_option description (make_post two_linkless 0 (described (replicate 400 120))) =
     Some (replicate 400 120) \<and>
   map_option description (make_post two_linkless 0 (described [])) = Some []"
proof -
  have h: "e_description (described d) = Some d" "get_text two_linkless d = Some d" for d
    by (simp_all add: described_def ex_defs)
  have n6: "replicate 600 (120::nat) \<noteq> []" and n4: "replicate 400 (120::nat) \<noteq> []"
    by (simp_all add: replicate_empty)
  from description_truncated [of "described (replicate 600 120)" two_linkless 0] h n6
  obtain p where p: "make_post two_linkless 0 (described (replicate 600 120)) = Some p"
    "500 < length (replicate 600 (120::nat)) \<longrightarrow> description p = take 500 (replicate 600 120) @ str ''...''"
    by blast
  then have 1: "map_option description (make_post two_linkless 0 (described (replicate 600 120))) =
     Some (replicate 500 120 @ str ''...'')"
    by simp
  from description_truncated [of "described (replicate 400 120)" two_linkless 0] h n4
  obtain q where q: "make_post two_linkless 0 (described (replicate 400 120)) = Some q"
    "length (replicate 400 (120::nat)) \<le> 500 \<longrightarrow> description q = replicate 400 120"
    by blast
  then have 2: "map_option description (make_post two_linkless 0 (described (replicate 400 120))) =
     Some (replicate 400 120)"
    by simp
  from description_truncated [of "described []" two_linkless 0] h
  obtain r where "make_post two_linkless 0 (described []) = Some r" "description r = []"
    by blast
  then have 3: "map_option description (make_post two_linkless 0 (described [])) = Some []"
    by simp
  from h n6 1 2 3 show ?thesis by blast
qed

section \<open>The message formatter\<close>

lemma escaped_replace:
  "replace 62 (str ''&gt;'') (replace 60 (str ''&lt;'') (replace 38 (str ''&amp;'') s)) = escaped s"
  by (induction s) (simp_all add: replace_def escaped_def str_def)

lemma escaped_no_markup: "60 \<notin> set (escaped s) \<and> 62 \<notin> set (escaped s)"
  by (induction s) (simp_all add: escaped_def str_def)

text \<open>
  C10. The message is the escaped title, a blank line, the link label, a blank line, the
  escaped description, a blank line and the attribution line, into which the feed name
  goes as it is, whatever characters it has. The escaped title and description contain
  no \<open><\<close> and no \<open>>\<close>.
\<close>

theorem feed_name_verbatim:
  "format_telegram_message p feed_name =
     escaped (title p) @ [10, 10] @
     str ''<a href='' @ [34] @ replace 34 (str ''&quot;'') (link p) @ [34] @ str ''>'' @
     [128279] @ str '' Link</a>'' @ [10, 10] @
     escaped (description p) @ [10, 10] @
     str ''<i>Feed: '' @ feed_name @ str ''</i>'' @ [10] \<and>
   60 \<notin> set (escaped (title p)) \<and> 62 \<notin> set (escaped (title p)) \<and>
   60 \<notin> set (escaped (description p)) \<and> 62 \<notin> set (escaped (description p))"
  by (simp add: format_telegram_message_def escaped_replace escaped_no_markup)

text \<open>A title and a feed name with markup characters: only the title is escaped.\<close>

lemma feed_name_example:
  "format_telegram_message (ex_post (str ''x'') (str ''a<b&c'')) (str ''R&D <x>'') =
     str ''a&lt;b&amp;c'' @ [10, 10] @
     str ''<a href='' @ [34] @ str ''x'' @ [34] @ str ''>'' @ [128279] @ str '' Link</a>'' @ [10, 10] @
     [10, 10] @ str ''<i>Feed: R&D <x></i>'' @ [10]"
  by (simp add: format_telegram_message_def replace_def ex_post_def str_def)

end
